theory Spec2Isabelle
  imports Main "HOL-Library.Word"
begin

section \<open>The ring buffer of ringbuf.c, as a shallow embedding\<close>

text \<open>
  The C code keeps its bookkeeping in \<^verbatim>\<open>struct ringbuf\<close> and the elements in a
  byte array that the caller owns. The embedding follows that split: the struct is a
  record, the caller's memory is a byte-addressed store, and every function takes the
  record and the store and returns them updated, next to the \<^verbatim>\<open>int\<close> the C function
  returns.

  \<^item> \<^verbatim>\<open>size_t\<close> and pointers are 64-bit words (the width of an LP64 target; the
    source fixes none). Unsigned arithmetic wraps, as the operations on words do. The
    null pointer is the word 0.
  \<^item> The remainder \<^verbatim>\<open>x % 0\<close> is undefined in C, while \<open>x mod 0 = x\<close> in HOL. Each
    remainder of the source is therefore guarded in the model: with a zero divisor the
    function yields the fault \<open>DivByZero\<close> instead of a result.
  \<^item> The source is compiled with \<^verbatim>\<open>RINGBUF_DEBUG 1\<close>, so the diagnostic printing is
    part of the functions. Standard output is a string that the functions extend.
\<close>

type_synonym byte = "8 word"
type_synonym size_t = "64 word"
type_synonym ptr = "64 word"
type_synonym memory = "ptr \<Rightarrow> byte"

text \<open>
  The two callbacks of \<^verbatim>\<open>rb->ops\<close>. A copy callback \<^verbatim>\<open>void (*)(void *dst, const void *src)\<close>
  is a function from the store and the two pointers to the new store; a print callback
  \<^verbatim>\<open>void (*)(const void *elem)\<close> is the text it writes for the element it is given.
  \<open>None\<close> is the null function pointer.
\<close>

record ringbuf_ops =
  elem_copy :: "(memory \<Rightarrow> ptr \<Rightarrow> ptr \<Rightarrow> memory) option"
  elem_print :: "(memory \<Rightarrow> ptr \<Rightarrow> string) option"

record ringbuf =
  buf :: ptr
  capacity :: size_t
  elem_sz :: size_t
  head :: size_t
  tail :: size_t
  count :: size_t
  ops :: ringbuf_ops

record world =
  heap :: memory
  console :: string

datatype fault = DivByZero

subsection \<open>The C library functions the code calls\<close>

text \<open>
  \<^verbatim>\<open>memcpy(dst, src, n)\<close> and \<^verbatim>\<open>memset(p, c, n)\<close>. An address \<open>a\<close> lies among the
  \<open>n\<close> bytes that start at \<open>p\<close> exactly when \<open>a - p < n\<close> in wrapping arithmetic.
  \<^verbatim>\<open>memcpy\<close> on overlapping regions is undefined in C; the model reads every source
  byte from the store as it was before the call.
\<close>

definition memcpy :: "memory \<Rightarrow> ptr \<Rightarrow> ptr \<Rightarrow> size_t \<Rightarrow> memory" where
  "memcpy m dst src n = (\<lambda>a. if a - dst < n then m (src + (a - dst)) else m a)"

definition memset :: "memory \<Rightarrow> ptr \<Rightarrow> byte \<Rightarrow> size_t \<Rightarrow> memory" where
  "memset m p c n = (\<lambda>a. if a - p < n then c else m a)"

subsection \<open>ringbuf\_init, ringbuf\_full, ringbuf\_empty\<close>

text \<open>
  \<^verbatim>\<open>ringbuf_init\<close> writes through the pointer \<^verbatim>\<open>rb\<close>; a null \<^verbatim>\<open>rb\<close> is \<open>None\<close>. The
  result is the returned \<^verbatim>\<open>int\<close> and the struct behind \<^verbatim>\<open>rb\<close> after the call.
\<close>

definition ringbuf_init ::
  "ringbuf option \<Rightarrow> ptr \<Rightarrow> size_t \<Rightarrow> size_t \<Rightarrow> int \<times> ringbuf option" where
  "ringbuf_init rb b n_elem sz =
     (case rb of
        None \<Rightarrow> (- 1, None)
      | Some r \<Rightarrow>
          if b = 0 then (- 1, Some r)
          else (0, Some (r\<lparr>buf := b, capacity := n_elem, elem_sz := sz,
                           head := 0, tail := 0, count := 0,
                           ops := \<lparr>elem_copy = None, elem_print = None\<rparr>\<rparr>)))"

definition ringbuf_full :: "ringbuf \<Rightarrow> int" where
  "ringbuf_full rb = (if count rb = capacity rb then 1 else 0)"

definition ringbuf_empty :: "ringbuf \<Rightarrow> int" where
  "ringbuf_empty rb = (if 0 = count rb then 1 else 0)"

subsection \<open>ringbuf\_print\_elems\<close>

text \<open>
  The loop \<^verbatim>\<open>for (size_t i = 0; i < rb->count; i++)\<close>, with the text printed so far as
  accumulator. Each round takes \<^verbatim>\<open>(rb->head + i) % rb->capacity\<close>.
\<close>

function print_elems_loop ::
  "ringbuf \<Rightarrow> (memory \<Rightarrow> ptr \<Rightarrow> string) \<Rightarrow> memory \<Rightarrow> size_t \<Rightarrow> string \<Rightarrow> fault + string" where
  "print_elems_loop rb fn m i out =
     (if i < count rb then
        (if capacity rb = 0 then Inl DivByZero
         else print_elems_loop rb fn m (i + 1)
                (out @ fn m (buf rb + elem_sz rb * ((head rb + i) mod capacity rb)) @ '' ''))
      else Inr out)"
  by pat_completeness auto
termination
proof (relation "measure (\<lambda>(rb, fn, m, i, out). unat (count rb) - unat i)")
  show "wf (measure (\<lambda>(rb, fn, m, i, out). unat (count rb) - unat i))"
    by simp
next
  fix rb :: ringbuf and fn :: "memory \<Rightarrow> ptr \<Rightarrow> string" and m :: memory
    and i :: size_t and out :: string
  assume lt: "i < count rb"
  then have "unat i < unat (count rb)"
    by (simp add: word_less_nat_alt)
  moreover have "unat (i + 1) = unat i + 1"
  proof -
    have "unat i + unat (1 :: size_t) < 2 ^ LENGTH(64)"
      using \<open>unat i < unat (count rb)\<close> unsigned_less [of "count rb", where 'a = nat]
      by simp
    then show ?thesis
      by (simp add: unat_add_lem [THEN iffD1])
  qed
  ultimately show "((rb, fn, m, i + 1, out @ fn m (buf rb + elem_sz rb * ((head rb + i) mod capacity rb)) @ '' ''),
                    (rb, fn, m, i, out)) \<in> measure (\<lambda>(rb, fn, m, i, out). unat (count rb) - unat i)"
    by simp
qed

definition ringbuf_print_elems ::
  "ringbuf \<Rightarrow> (memory \<Rightarrow> ptr \<Rightarrow> string) \<Rightarrow> memory \<Rightarrow> string \<Rightarrow> fault + string" where
  "ringbuf_print_elems rb fn m out =
     (case print_elems_loop rb fn m 0 out of
        Inl f \<Rightarrow> Inl f
      | Inr out' \<Rightarrow> Inr (out' @ (if count rb = 0 then ''(empty)'' else '''') @ [CHR 0x0A]))"

subsection \<open>ringbuf\_add\_tail and ringbuf\_remove\_head\<close>

text \<open>
  The result is a fault, or the returned \<^verbatim>\<open>int\<close> with the struct and the world after
  the call. The statements are in the order of the source: the null check, the full
  check, the copy into the slot at \<^verbatim>\<open>tail\<close>, the index update with its remainder, the
  counter, the diagnostic output.
\<close>

definition ringbuf_add_tail ::
  "ringbuf \<Rightarrow> ptr \<Rightarrow> world \<Rightarrow> fault + (int \<times> ringbuf \<times> world)" where
  "ringbuf_add_tail rb elem w =
     (if elem = 0 then Inr (0, rb, w)
      else if ringbuf_full rb \<noteq> 0 then Inr (- 1, rb, w)
      else
        let tp = buf rb + elem_sz rb * tail rb;
            m1 = (case elem_copy (ops rb) of
                    Some cp \<Rightarrow> cp (heap w) tp elem
                  | None \<Rightarrow> memcpy (heap w) tp elem (elem_sz rb))
        in if capacity rb = 0 then Inl DivByZero
           else
             let rb1 = rb\<lparr>tail := (tail rb + 1) mod capacity rb\<rparr>;
                 rb2 = rb1\<lparr>count := count rb1 + 1\<rparr>
             in (case elem_print (ops rb2) of
                   None \<Rightarrow> Inr (0, rb2, w\<lparr>heap := m1\<rparr>)
                 | Some pr \<Rightarrow>
                     (case ringbuf_print_elems rb2 pr m1
                             (console w @ ''ringbuf_add_tail: added elem: '' @ pr m1 elem @ [CHR 0x0A]) of
                        Inl f \<Rightarrow> Inl f
                      | Inr out \<Rightarrow> Inr (0, rb2, \<lparr>heap = m1, console = out\<rparr>))))"

definition ringbuf_remove_head ::
  "ringbuf \<Rightarrow> ptr \<Rightarrow> world \<Rightarrow> fault + (int \<times> ringbuf \<times> world)" where
  "ringbuf_remove_head rb elem w =
     (if ringbuf_empty rb \<noteq> 0 then Inr (- 1, rb, w)
      else
        let hp = buf rb + elem_sz rb * head rb;
            m1 = (if elem \<noteq> 0 then
                    (case elem_copy (ops rb) of
                       Some cp \<Rightarrow> cp (heap w) elem hp
                     | None \<Rightarrow> memcpy (heap w) elem hp (elem_sz rb))
                  else heap w);
            out1 = (if elem \<noteq> 0 then
                      (case elem_print (ops rb) of
                         Some pr \<Rightarrow> console w @ ''ringbuf_remove_head: removed elem: '' @ pr m1 elem @ [CHR 0x0A]
                       | None \<Rightarrow> console w)
                    else console w);
            m2 = memset m1 hp 0 (elem_sz rb)
        in if capacity rb = 0 then Inl DivByZero
           else
             let rb1 = rb\<lparr>head := (head rb + 1) mod capacity rb\<rparr>;
                 rb2 = rb1\<lparr>count := count rb1 - 1\<rparr>
             in (case elem_print (ops rb2) of
                   None \<Rightarrow> Inr (0, rb2, \<lparr>heap = m2, console = out1\<rparr>)
                 | Some pr \<Rightarrow>
                     (case ringbuf_print_elems rb2 pr m2 out1 of
                        Inl f \<Rightarrow> Inl f
                      | Inr out \<Rightarrow> Inr (0, rb2, \<lparr>heap = m2, console = out\<rparr>))))"

section \<open>Vocabulary of the specification\<close>

subsection \<open>Bytes of the store\<close>

text \<open>
  \<open>within a p n\<close>: the address \<open>a\<close> is one of the \<open>n\<close> bytes that start at \<open>p\<close>.
  \<open>separate p n q k\<close>: the \<open>n\<close> bytes at \<open>p\<close> and the \<open>k\<close> bytes at \<open>q\<close> share no
  address. \<open>load\<close> reads \<open>n\<close> consecutive bytes; \<open>store\<close> is the caller writing a
  value into one of its own variables.
\<close>

definition within :: "ptr \<Rightarrow> ptr \<Rightarrow> nat \<Rightarrow> bool" where
  "within a p n \<longleftrightarrow> unat (a - p) < n"

definition separate :: "ptr \<Rightarrow> nat \<Rightarrow> ptr \<Rightarrow> nat \<Rightarrow> bool" where
  "separate p n q k \<longleftrightarrow> (\<forall>a. \<not> (within a p n \<and> within a q k))"

definition load :: "memory \<Rightarrow> ptr \<Rightarrow> nat \<Rightarrow> byte list" where
  "load m p n = map (\<lambda>k. m (p + of_nat k)) [0..<n]"

definition store :: "memory \<Rightarrow> ptr \<Rightarrow> byte list \<Rightarrow> memory" where
  "store m p bs = (\<lambda>a. if unat (a - p) < length bs then bs ! unat (a - p) else m a)"

text \<open>The four bytes of a 32-bit \<^verbatim>\<open>int\<close>, least significant first.\<close>

definition le32 :: "32 word \<Rightarrow> byte list" where
  "le32 v = [ucast v, ucast (drop_bit 8 v), ucast (drop_bit 16 v), ucast (drop_bit 24 v)]"

subsection \<open>The queue a ring buffer holds\<close>

text \<open>
  The address of slot \<open>i\<close>, as \<^verbatim>\<open>ringbuf_add_tail\<close> and \<^verbatim>\<open>ringbuf_remove_head\<close>
  compute it, and the elements from head to tail, the order in which
  \<^verbatim>\<open>ringbuf_print_elems\<close> prints them: the \<open>count\<close> slots from \<open>head\<close> on, with the
  index taken modulo \<open>capacity\<close> over the natural numbers.
\<close>

definition slot :: "ringbuf \<Rightarrow> size_t \<Rightarrow> ptr" where
  "slot rb i = buf rb + elem_sz rb * i"

definition contents :: "ringbuf \<Rightarrow> memory \<Rightarrow> byte list list" where
  "contents rb m =
     map (\<lambda>i. load m (slot rb (of_nat ((unat (head rb) + i) mod unat (capacity rb))))
                 (unat (elem_sz rb)))
       [0..<unat (count rb)]"

text \<open>The copy that both operations make: the callback when one is installed, else \<^verbatim>\<open>memcpy\<close>.\<close>

definition copy_elem :: "ringbuf \<Rightarrow> memory \<Rightarrow> ptr \<Rightarrow> ptr \<Rightarrow> memory" where
  "copy_elem rb m dst src =
     (case elem_copy (ops rb) of
        Some cp \<Rightarrow> cp m dst src
      | None \<Rightarrow> memcpy m dst src (elem_sz rb))"

text \<open>
  A copy callback is faithful when it does what the spec asks of it, a full copy of
  the element: on every store it agrees with the byte-wise copy of \<open>elem_sz\<close> bytes.
\<close>

definition copy_faithful :: "ringbuf \<Rightarrow> bool" where
  "copy_faithful rb \<longleftrightarrow>
     (case elem_copy (ops rb) of
        None \<Rightarrow> True
      | Some cp \<Rightarrow> (\<forall>m d s. cp m d s = memcpy m d s (elem_sz rb)))"

subsection \<open>Invariants\<close>


definition ringbuf_inv :: "ringbuf \<Rightarrow> bool" where
  "ringbuf_inv rb \<longleftrightarrow>
     unat (count rb) \<le> unat (capacity rb) \<and>
     (if capacity rb = 0 then head rb = 0 \<and> tail rb = 0
      else unat (head rb) < unat (capacity rb) \<and>
           unat (tail rb) < unat (capacity rb) \<and>
           unat (tail rb) = (unat (head rb) + unat (count rb)) mod unat (capacity rb))"

subsection \<open>Reachable states\<close>


subsection \<open>A caller\<close>

text \<open>
  The programs of \<^verbatim>\<open>ringbuf_test.c\<close> keep one variable \<^verbatim>\<open>my_elem\<close>, assign it and pass
  its address to \<^verbatim>\<open>ringbuf_add_tail\<close>, or pass its address to \<^verbatim>\<open>ringbuf_remove_head\<close>
  and read it afterwards. \<open>client e\<close> is such a caller, with \<^verbatim>\<open>my_elem\<close> at address \<open>e\<close>:
  it serves a list of requests and records for each what the call returned.
\<close>

datatype request = Enqueue "byte list" | Dequeue

datatype event = EnqOk "byte list" | EnqFull "byte list" | DeqOk "byte list" | DeqEmpty

fun client ::
  "ptr \<Rightarrow> request list \<Rightarrow> ringbuf \<Rightarrow> world \<Rightarrow> fault + (event list \<times> ringbuf \<times> world)" where
  "client e [] rb w = Inr ([], rb, w)"
| "client e (Enqueue x # rs) rb w =
     (case ringbuf_add_tail rb e (w\<lparr>heap := store (heap w) e x\<rparr>) of
        Inl f \<Rightarrow> Inl f
      | Inr (r, rb', w') \<Rightarrow>
          (case client e rs rb' w' of
             Inl f \<Rightarrow> Inl f
           | Inr (evs, rb'', w'') \<Rightarrow>
               Inr ((if r = 0 then EnqOk x else EnqFull x) # evs, rb'', w'')))"
| "client e (Dequeue # rs) rb w =
     (case ringbuf_remove_head rb e w of
        Inl f \<Rightarrow> Inl f
      | Inr (r, rb', w') \<Rightarrow>
          (case client e rs rb' w' of
             Inl f \<Rightarrow> Inl f
           | Inr (evs, rb'', w'') \<Rightarrow>
               Inr ((if r = 0 then DeqOk (load (heap w') e (unat (elem_sz rb))) else DeqEmpty) # evs,
                    rb'', w'')))"

text \<open>The elements that were taken in, and those that were handed out, in order.\<close>

fun accepted :: "event list \<Rightarrow> byte list list" where
  "accepted [] = []"
| "accepted (EnqOk x # evs) = x # accepted evs"
| "accepted (_ # evs) = accepted evs"

fun delivered :: "event list \<Rightarrow> byte list list" where
  "delivered [] = []"
| "delivered (DeqOk x # evs) = x # delivered evs"
| "delivered (_ # evs) = delivered evs"

fun payload_ok :: "nat \<Rightarrow> request \<Rightarrow> bool" where
  "payload_ok n (Enqueue x) = (length x = n)"
| "payload_ok n Dequeue = True"

text \<open>
  A queue with room for \<open>cap\<close> elements, as a list with the oldest element first, and
  what a caller of such a queue records for a list of requests.
\<close>

fun queue_model :: "nat \<Rightarrow> byte list list \<Rightarrow> request list \<Rightarrow> event list \<times> byte list list" where
  "queue_model cap q [] = ([], q)"
| "queue_model cap q (Enqueue x # rs) =
     (if length q = cap then
        (case queue_model cap q rs of (evs, q') \<Rightarrow> (EnqFull x # evs, q'))
      else
        (case queue_model cap (q @ [x]) rs of (evs, q') \<Rightarrow> (EnqOk x # evs, q')))"
| "queue_model cap q (Dequeue # rs) =
     (case q of
        [] \<Rightarrow> (case queue_model cap q rs of (evs, q') \<Rightarrow> (DeqEmpty # evs, q'))
      | y # q1 \<Rightarrow> (case queue_model cap q1 rs of (evs, q') \<Rightarrow> (DeqOk y # evs, q')))"

text \<open>
  What the caller owes the buffer: the address of its variable is not null, the
  \<open>elem_sz\<close> bytes of the variable lie outside the \<open>capacity * elem_sz\<close> bytes of the
  array, and a copy callback, if one is installed, is faithful.
\<close>

definition caller_ok :: "ptr \<Rightarrow> ringbuf \<Rightarrow> bool" where
  "caller_ok e rb \<longleftrightarrow>
     e \<noteq> 0 \<and>
     separate e (unat (elem_sz rb)) (buf rb) (unat (capacity rb) * unat (elem_sz rb)) \<and>
     copy_faithful rb"

subsection \<open>Sample values\<close>

text \<open>
  A buffer as \<^verbatim>\<open>test_queue_int\<close> sets it up (eight slots of four bytes), here with its
  array at address \<open>0x1000\<close>, and a world with zeroed memory and no output.
\<close>

definition sample_rb :: ringbuf where
  "sample_rb = \<lparr>buf = 0x1000, capacity = 8, elem_sz = 4, head = 0, tail = 0, count = 0,
               ops = \<lparr>elem_copy = None, elem_print = None\<rparr>\<rparr>"

definition blank :: world where
  "blank = \<lparr>heap = (\<lambda>a. 0), console = []\<rparr>"

section \<open>What the two operations return\<close>

text \<open>
  The printing loop ends without a fault whenever the buffer has slots, so each
  operation either takes one of its early exits or, in a buffer with slots, completes
  with the struct and the store updated as the assignments of the source say.
\<close>

lemma print_elems_loop_total:
  "capacity rb \<noteq> 0 \<Longrightarrow> \<exists>out'. print_elems_loop rb fn m i out = Inr out'"
proof (induction rb fn m i out rule: print_elems_loop.induct)
  case (1 rb fn m i out)
  show ?case
  proof (cases "i < count rb")
    case True
    with 1 show ?thesis by (subst print_elems_loop.simps) simp
  next
    case False
    then show ?thesis by (subst print_elems_loop.simps) simp
  qed
qed

lemma print_elems_total:
  assumes "capacity rb \<noteq> 0"
  shows "\<exists>out'. ringbuf_print_elems rb fn m out = Inr out'"
proof -
  from print_elems_loop_total [OF assms] obtain o1 where "print_elems_loop rb fn m 0 out = Inr o1"
    by blast
  then show ?thesis by (simp add: ringbuf_print_elems_def)
qed

lemma within_unat_less: "within a p (unat n) \<longleftrightarrow> a - p < n"
  by (simp add: within_def word_less_nat_alt)

lemma add_tail_success:
  assumes "elem \<noteq> 0" and "count rb \<noteq> capacity rb" and "capacity rb \<noteq> 0"
  shows "\<exists>out. ringbuf_add_tail rb elem w =
           Inr (0, rb\<lparr>tail := (tail rb + 1) mod capacity rb, count := count rb + 1\<rparr>,
                \<lparr>heap = copy_elem rb (heap w) (slot rb (tail rb)) elem, console = out\<rparr>)"
proof (cases "elem_print (ops rb)")
  case None
  with assms have "ringbuf_add_tail rb elem w =
           Inr (0, rb\<lparr>tail := (tail rb + 1) mod capacity rb, count := count rb + 1\<rparr>,
                \<lparr>heap = copy_elem rb (heap w) (slot rb (tail rb)) elem, console = console w\<rparr>)"
    by (cases w) (simp add: ringbuf_add_tail_def ringbuf_full_def copy_elem_def slot_def Let_def
        cong: option.case_cong)
  then show ?thesis by blast
next
  case (Some pr)
  let ?rb2 = "rb\<lparr>tail := (tail rb + 1) mod capacity rb, count := count rb + 1\<rparr>"
  let ?m1 = "copy_elem rb (heap w) (slot rb (tail rb)) elem"
  have "capacity ?rb2 \<noteq> 0" using assms by simp
  from print_elems_total [OF this]
  obtain out where "ringbuf_print_elems ?rb2 pr ?m1
      (console w @ ''ringbuf_add_tail: added elem: '' @ pr ?m1 elem @ [CHR 0x0A]) = Inr out"
    by blast
  with assms Some show ?thesis
    by (simp add: ringbuf_add_tail_def ringbuf_full_def copy_elem_def slot_def Let_def)
qed

lemma add_tail_null: "ringbuf_add_tail rb 0 w = Inr (0, rb, w)"
  by (simp add: ringbuf_add_tail_def)

lemma add_tail_full:
  "elem \<noteq> 0 \<Longrightarrow> count rb = capacity rb \<Longrightarrow> ringbuf_add_tail rb elem w = Inr (- 1, rb, w)"
  by (simp add: ringbuf_add_tail_def ringbuf_full_def)

lemma add_tail_no_slots:
  "elem \<noteq> 0 \<Longrightarrow> count rb \<noteq> capacity rb \<Longrightarrow> capacity rb = 0
     \<Longrightarrow> ringbuf_add_tail rb elem w = Inl DivByZero"
  by (simp add: ringbuf_add_tail_def ringbuf_full_def Let_def)

lemma add_tail_Inr_cases:
  assumes "ringbuf_add_tail rb elem w = Inr (r, rb', w')"
  shows "(elem = 0 \<and> r = 0 \<and> rb' = rb \<and> w' = w) \<or>
         (elem \<noteq> 0 \<and> count rb = capacity rb \<and> r = - 1 \<and> rb' = rb \<and> w' = w) \<or>
         (elem \<noteq> 0 \<and> count rb \<noteq> capacity rb \<and> capacity rb \<noteq> 0 \<and> r = 0 \<and>
          rb' = rb\<lparr>tail := (tail rb + 1) mod capacity rb, count := count rb + 1\<rparr> \<and>
          heap w' = copy_elem rb (heap w) (slot rb (tail rb)) elem)"
proof -
  consider "elem = 0" | "elem \<noteq> 0" "count rb = capacity rb"
    | "elem \<noteq> 0" "count rb \<noteq> capacity rb" "capacity rb = 0"
    | "elem \<noteq> 0" "count rb \<noteq> capacity rb" "capacity rb \<noteq> 0"
    by blast
  then show ?thesis
  proof cases
    case 1
    with assms show ?thesis by (simp add: add_tail_null)
  next
    case 2
    with assms show ?thesis by (simp add: add_tail_full)
  next
    case 3
    with assms show ?thesis by (simp add: add_tail_no_slots)
  next
    case 4
    from add_tail_success [OF 4, of w] obtain out where
      "ringbuf_add_tail rb elem w =
         Inr (0, rb\<lparr>tail := (tail rb + 1) mod capacity rb, count := count rb + 1\<rparr>,
              \<lparr>heap = copy_elem rb (heap w) (slot rb (tail rb)) elem, console = out\<rparr>)"
      by blast
    with assms 4 show ?thesis by auto
  qed
qed

lemma remove_head_success:
  assumes "count rb \<noteq> 0" and "capacity rb \<noteq> 0"
  shows "\<exists>out. ringbuf_remove_head rb elem w =
           Inr (0, rb\<lparr>head := (head rb + 1) mod capacity rb, count := count rb - 1\<rparr>,
                \<lparr>heap = memset (if elem \<noteq> 0 then copy_elem rb (heap w) elem (slot rb (head rb)) else heap w)
                          (slot rb (head rb)) 0 (elem_sz rb),
                 console = out\<rparr>)"
proof (cases "elem_print (ops rb)")
  case None
  with assms show ?thesis
    by (simp add: ringbuf_remove_head_def ringbuf_empty_def copy_elem_def slot_def Let_def)
next
  case (Some pr)
  let ?rb2 = "rb\<lparr>head := (head rb + 1) mod capacity rb, count := count rb - 1\<rparr>"
  have cap2: "capacity ?rb2 \<noteq> 0" using assms by simp
  let ?m2 = "memset (if elem \<noteq> 0 then copy_elem rb (heap w) elem (slot rb (head rb)) else heap w)
                          (slot rb (head rb)) 0 (elem_sz rb)"
  let ?o1 = "if elem \<noteq> 0 then console w @ ''ringbuf_remove_head: removed elem: '' @
                pr (copy_elem rb (heap w) elem (slot rb (head rb))) elem @ [CHR 0x0A] else console w"
  from print_elems_total [OF cap2]
  obtain out where out: "ringbuf_print_elems ?rb2 pr ?m2 ?o1 = Inr out"
    by blast
  have "ringbuf_remove_head rb elem w = Inr (0, ?rb2, \<lparr>heap = ?m2, console = out\<rparr>)"
  proof (cases "elem = 0")
    case True
    with assms Some out show ?thesis
      by (simp add: ringbuf_remove_head_def ringbuf_empty_def slot_def Let_def)
  next
    case False
    with assms Some out show ?thesis
      by (simp add: ringbuf_remove_head_def ringbuf_empty_def copy_elem_def slot_def Let_def)
  qed
  then show ?thesis by blast
qed

lemma remove_head_empty:
  "count rb = 0 \<Longrightarrow> ringbuf_remove_head rb elem w = Inr (- 1, rb, w)"
  by (simp add: ringbuf_remove_head_def ringbuf_empty_def)

lemma remove_head_no_slots:
  "count rb \<noteq> 0 \<Longrightarrow> capacity rb = 0 \<Longrightarrow> ringbuf_remove_head rb elem w = Inl DivByZero"
  by (simp add: ringbuf_remove_head_def ringbuf_empty_def Let_def)

lemma remove_head_Inr_cases:
  assumes "ringbuf_remove_head rb elem w = Inr (r, rb', w')"
  shows "(count rb = 0 \<and> r = - 1 \<and> rb' = rb \<and> w' = w) \<or>
         (count rb \<noteq> 0 \<and> capacity rb \<noteq> 0 \<and> r = 0 \<and>
          rb' = rb\<lparr>head := (head rb + 1) mod capacity rb, count := count rb - 1\<rparr> \<and>
          heap w' = memset (if elem \<noteq> 0 then copy_elem rb (heap w) elem (slot rb (head rb)) else heap w)
                      (slot rb (head rb)) 0 (elem_sz rb))"
proof -
  consider "count rb = 0" | "count rb \<noteq> 0" "capacity rb = 0" | "count rb \<noteq> 0" "capacity rb \<noteq> 0"
    by blast
  then show ?thesis
  proof cases
    case 1
    with assms show ?thesis by (simp add: remove_head_empty)
  next
    case 2
    with assms show ?thesis by (simp add: remove_head_no_slots)
  next
    case 3
    from remove_head_success [OF 3, of elem w] obtain out where
      "ringbuf_remove_head rb elem w =
         Inr (0, rb\<lparr>head := (head rb + 1) mod capacity rb, count := count rb - 1\<rparr>,
              \<lparr>heap = memset (if elem \<noteq> 0 then copy_elem rb (heap w) elem (slot rb (head rb)) else heap w)
                        (slot rb (head rb)) 0 (elem_sz rb),
               console = out\<rparr>)"
      by blast
    with assms 3 show ?thesis by auto
  qed
qed

section \<open>Failure paths and queries\<close>

text \<open>
  Claim C3. With \<open>count = capacity\<close> and a non-null element pointer,
  \<^verbatim>\<open>ringbuf_add_tail\<close> returns -1 (the spec's \<open>Full\<close>) and hands back the struct and the
  world as they were: \<open>count\<close>, \<open>head\<close>, \<open>tail\<close>, every byte of the store, and the
  output.
\<close>

theorem add_tail_full_unchanged:
  assumes "count rb = capacity rb" and "elem \<noteq> 0"
  shows "ringbuf_add_tail rb elem w = Inr (- 1, rb, w)"
  using assms by (simp add: ringbuf_add_tail_def ringbuf_full_def)

theorem add_tail_full_unchanged_witness:
  "count (sample_rb\<lparr>count := 8\<rparr>) = capacity (sample_rb\<lparr>count := 8\<rparr>) \<and> (0x2000 :: ptr) \<noteq> 0 \<and>
   ringbuf_add_tail (sample_rb\<lparr>count := 8\<rparr>) 0x2000 blank = Inr (- 1, sample_rb\<lparr>count := 8\<rparr>, blank)"
  using add_tail_full_unchanged [of "sample_rb\<lparr>count := 8\<rparr>" "0x2000" blank]
  by (simp add: sample_rb_def)

text \<open>
  Claim C4. With \<open>count = 0\<close>, \<^verbatim>\<open>ringbuf_remove_head\<close> returns -1 (the spec's
  \<open>Empty\<close>) for every destination pointer, null or not, and hands back the struct and
  the world as they were.
\<close>

theorem remove_head_empty_unchanged:
  assumes "count rb = 0"
  shows "ringbuf_remove_head rb elem w = Inr (- 1, rb, w)"
  using assms by (simp add: ringbuf_remove_head_def ringbuf_empty_def)

theorem remove_head_empty_unchanged_witness:
  "count sample_rb = 0 \<and>
   ringbuf_remove_head sample_rb 0x2000 blank = Inr (- 1, sample_rb, blank) \<and>
   ringbuf_remove_head sample_rb 0 blank = Inr (- 1, sample_rb, blank)"
  using remove_head_empty_unchanged [of sample_rb "0x2000" blank]
    remove_head_empty_unchanged [of sample_rb 0 blank]
  by (simp add: sample_rb_def)

text \<open>
  Claim C5. \<^verbatim>\<open>ringbuf_add_tail\<close> with a null element pointer returns 0 and hands back
  the struct and the world as they were, in every state of the buffer, a full one
  included.
\<close>

theorem add_tail_null_noop:
  "ringbuf_add_tail rb 0 w = Inr (0, rb, w)"
  by (simp add: ringbuf_add_tail_def)

text \<open>
  Claim C6. Called with a struct to fill in, \<^verbatim>\<open>ringbuf_init\<close> returns -1 (the spec's
  \<open>InvalidArgument\<close>) exactly when the storage pointer is null, and then leaves the
  struct alone. With a non-null storage pointer it returns 0 for every capacity and
  element size, zero included, and the struct then has the arguments in \<open>buf\<close>,
  \<open>capacity\<close> and \<open>elem_sz\<close>, \<open>head = tail = count = 0\<close> and both callbacks null.
  (The spec's \<open>initialize\<close> returns the buffer; the pointer \<^verbatim>\<open>rb\<close> through which the C
  function returns it is not one of its arguments.)
\<close>

theorem init_result:
  "(fst (ringbuf_init (Some r) b n sz) = - 1 \<longleftrightarrow> b = 0) \<and>
   (b = 0 \<longrightarrow> ringbuf_init (Some r) b n sz = (- 1, Some r)) \<and>
   (b \<noteq> 0 \<longrightarrow> ringbuf_init (Some r) b n sz =
      (0, Some \<lparr>buf = b, capacity = n, elem_sz = sz, head = 0, tail = 0, count = 0,
                ops = \<lparr>elem_copy = None, elem_print = None\<rparr>\<rparr>))"
  by (simp add: ringbuf_init_def)

theorem init_result_witness:
  "(0x1000 :: ptr) \<noteq> 0 \<and>
   ringbuf_init (Some (sample_rb\<lparr>head := 5\<rparr>)) 0x1000 0 0 =
     (0, Some \<lparr>buf = 0x1000, capacity = 0, elem_sz = 0, head = 0, tail = 0, count = 0,
               ops = \<lparr>elem_copy = None, elem_print = None\<rparr>\<rparr>) \<and>
   ringbuf_init (Some (sample_rb\<lparr>head := 5\<rparr>)) 0 8 4 = (- 1, Some (sample_rb\<lparr>head := 5\<rparr>))"
  using init_result [of "sample_rb\<lparr>head := 5\<rparr>" "0x1000" 0 0]
    init_result [of "sample_rb\<lparr>head := 5\<rparr>" 0 8 4]
  by simp

text \<open>Without a struct to fill in, \<^verbatim>\<open>ringbuf_init\<close> returns -1 as well.\<close>

lemma init_null_struct: "ringbuf_init None b n sz = (- 1, None)"
  by (simp add: ringbuf_init_def)

text \<open>
  Claim C7. \<^verbatim>\<open>ringbuf_full\<close> answers true (non-zero) exactly when \<open>count = capacity\<close>,
  \<^verbatim>\<open>ringbuf_empty\<close> exactly when \<open>count = 0\<close>; the answers are 0 or 1. With
  \<open>capacity \<noteq> 0\<close> the two are never both true, and they are both true exactly when
  \<open>count = 0\<close> and \<open>capacity = 0\<close>. Both functions read the struct through a pointer to
  \<^verbatim>\<open>const\<close> and return an \<^verbatim>\<open>int\<close> only: they are functions of the struct, so they
  change no state and answer the same when asked again.
\<close>

theorem full_empty_queries:
  "(ringbuf_full rb \<noteq> 0 \<longleftrightarrow> count rb = capacity rb) \<and>
   (ringbuf_empty rb \<noteq> 0 \<longleftrightarrow> count rb = 0) \<and>
   ringbuf_full rb \<in> {0, 1} \<and> ringbuf_empty rb \<in> {0, 1} \<and>
   (capacity rb \<noteq> 0 \<longrightarrow> \<not> (ringbuf_full rb \<noteq> 0 \<and> ringbuf_empty rb \<noteq> 0)) \<and>
   (ringbuf_full rb \<noteq> 0 \<and> ringbuf_empty rb \<noteq> 0 \<longleftrightarrow> count rb = 0 \<and> capacity rb = 0)"
  by (auto simp: ringbuf_full_def ringbuf_empty_def)

theorem full_empty_queries_witness:
  "capacity sample_rb \<noteq> 0 \<and> ringbuf_empty sample_rb = 1 \<and> ringbuf_full sample_rb = 0 \<and>
   ringbuf_full (sample_rb\<lparr>count := 8\<rparr>) = 1 \<and> ringbuf_empty (sample_rb\<lparr>count := 8\<rparr>) = 0 \<and>
   ringbuf_full (sample_rb\<lparr>capacity := 0\<rparr>) = 1 \<and> ringbuf_empty (sample_rb\<lparr>capacity := 0\<rparr>) = 1"
  using full_empty_queries [of sample_rb] full_empty_queries [of "sample_rb\<lparr>count := 8\<rparr>"]
    full_empty_queries [of "sample_rb\<lparr>capacity := 0\<rparr>"]
  by (simp add: sample_rb_def ringbuf_full_def ringbuf_empty_def)

section \<open>Invariants of the bookkeeping\<close>

lemma unat_plus_one:
  fixes x c :: size_t
  assumes "unat x < unat c"
  shows "unat (x + 1) = unat x + 1"
proof -
  have "unat c < 2 ^ LENGTH(64)" by (rule unsigned_less)
  with assms have "unat x + unat (1 :: size_t) < 2 ^ LENGTH(64)" by simp
  then show ?thesis by (simp add: unat_add_lem [THEN iffD1])
qed

lemma unat_succ_mod:
  fixes x c :: size_t
  assumes "unat x < unat c"
  shows "unat ((x + 1) mod c) = (unat x + 1) mod unat c"
  by (simp add: unat_mod unat_plus_one [OF assms])

lemma unat_minus_one_word:
  fixes x :: size_t
  assumes "x \<noteq> 0"
  shows "unat (x - 1) = unat x - 1"
  using assms by (simp add: unat_minus_one)

lemma inv_after_add:
  assumes inv: "ringbuf_inv rb" and cap: "capacity rb \<noteq> 0" and nf: "count rb \<noteq> capacity rb"
  shows "ringbuf_inv (rb\<lparr>tail := (tail rb + 1) mod capacity rb, count := count rb + 1\<rparr>)"
proof -
  from inv cap have le: "unat (count rb) \<le> unat (capacity rb)"
    and h: "unat (head rb) < unat (capacity rb)"
    and t: "unat (tail rb) < unat (capacity rb)"
    and eq: "unat (tail rb) = (unat (head rb) + unat (count rb)) mod unat (capacity rb)"
    by (simp_all add: ringbuf_inv_def)
  from nf have "unat (count rb) \<noteq> unat (capacity rb)"
    by (simp add: word_unat_eq_iff)
  with le have lt: "unat (count rb) < unat (capacity rb)" by simp
  have c': "unat (count rb + 1) = unat (count rb) + 1"
    by (rule unat_plus_one [OF lt])
  have t': "unat ((tail rb + 1) mod capacity rb) = (unat (tail rb) + 1) mod unat (capacity rb)"
    by (rule unat_succ_mod [OF t])
  have pos: "0 < unat (capacity rb)" using h by simp
  have "(unat (tail rb) + 1) mod unat (capacity rb)
          = (unat (head rb) + (unat (count rb) + 1)) mod unat (capacity rb)"
    by (simp add: eq mod_Suc_eq)
  with cap lt c' t' h pos show ?thesis
    by (simp add: ringbuf_inv_def)
qed

lemma inv_after_remove:
  assumes inv: "ringbuf_inv rb" and cap: "capacity rb \<noteq> 0" and ne: "count rb \<noteq> 0"
  shows "ringbuf_inv (rb\<lparr>head := (head rb + 1) mod capacity rb, count := count rb - 1\<rparr>)"
proof -
  from inv cap have le: "unat (count rb) \<le> unat (capacity rb)"
    and h: "unat (head rb) < unat (capacity rb)"
    and t: "unat (tail rb) < unat (capacity rb)"
    and eq: "unat (tail rb) = (unat (head rb) + unat (count rb)) mod unat (capacity rb)"
    by (simp_all add: ringbuf_inv_def)
  from ne have pos: "0 < unat (count rb)" by (simp add: unat_gt_0)
  have c': "unat (count rb - 1) = unat (count rb) - 1"
    by (rule unat_minus_one_word [OF ne])
  have h': "unat ((head rb + 1) mod capacity rb) = (unat (head rb) + 1) mod unat (capacity rb)"
    by (rule unat_succ_mod [OF h])
  have "((unat (head rb) + 1) mod unat (capacity rb) + (unat (count rb) - 1)) mod unat (capacity rb)
          = (unat (head rb) + 1 + (unat (count rb) - 1)) mod unat (capacity rb)"
    by (rule mod_add_left_eq)
  also have "unat (head rb) + 1 + (unat (count rb) - 1) = unat (head rb) + unat (count rb)"
    using pos by simp
  finally have "unat (tail rb) =
      ((unat (head rb) + 1) mod unat (capacity rb) + (unat (count rb) - 1)) mod unat (capacity rb)"
    using eq by simp
  with cap le c' h' h t show ?thesis
    by (simp add: ringbuf_inv_def)
qed





lemma inv_no_slots: "ringbuf_inv rb \<Longrightarrow> capacity rb = 0 \<Longrightarrow> count rb = 0"
  by (simp add: ringbuf_inv_def unat_eq_0)











section \<open>Bytes moved by the operations\<close>

text \<open>Reading the store after \<^verbatim>\<open>memcpy\<close>, \<^verbatim>\<open>memset\<close> and a write of the caller.\<close>

lemma memcpy_apply:
  "memcpy m d s n a = (if within a d (unat n) then m (s + (a - d)) else m a)"
  by (simp add: memcpy_def within_unat_less)

lemma memset_apply:
  "memset m p c n a = (if within a p (unat n) then c else m a)"
  by (simp add: memset_def within_unat_less)

lemma unat_of_nat_small:
  "k < 2 ^ 64 \<Longrightarrow> unat (of_nat k :: 64 word) = k"
  by (simp add: unat_of_nat)

lemma within_offset:
  fixes n :: size_t
  assumes "k < unat n"
  shows "within (p + of_nat k) p (unat n)" and "p + of_nat k - p = (of_nat k :: ptr)"
proof -
  have "unat n < 2 ^ LENGTH(64)" by (rule unsigned_less)
  with assms have "k < 2 ^ 64" by simp
  then have "unat (of_nat k :: ptr) = k" by (rule unat_of_nat_small)
  with assms show "within (p + of_nat k) p (unat n)" by (simp add: within_def)
  show "p + of_nat k - p = (of_nat k :: ptr)" by simp
qed

lemma load_cong:
  fixes n :: size_t
  assumes "\<And>a. within a p (unat n) \<Longrightarrow> m' a = m a"
  shows "load m' p (unat n) = load m p (unat n)"
  unfolding load_def
  by (rule map_cong [OF refl]) (simp add: assms within_offset(1))

lemma load_shifted:
  fixes n :: size_t
  assumes "\<And>a. within a p (unat n) \<Longrightarrow> m' a = m (q + (a - p))"
  shows "load m' p (unat n) = load m q (unat n)"
  unfolding load_def
proof (rule map_cong [OF refl])
  fix k assume "k \<in> set [0..<unat n]"
  then have k: "k < unat n" by simp
  from assms [OF within_offset(1) [OF k]] within_offset(2) [OF k, of p]
  show "m' (p + of_nat k) = m (q + of_nat k)" by simp
qed


lemma separateI:
  fixes p q :: ptr
  assumes "n \<le> unat (q - p)" and "k \<le> unat (p - q)"
  shows "separate p n q k"
  unfolding separate_def within_def
proof (intro allI notI)
  fix a
  assume "unat (a - p) < n \<and> unat (a - q) < k"
  with assms have 1: "unat (a - p) < unat (q - p)" and 2: "unat (a - q) < unat (p - q)"
    by simp_all
  define x where "x = a - p"
  define d where "d = q - p"
  have e: "a - q = x - d" "p - q = - d" by (simp_all add: x_def d_def)
  from 1 have xd: "unat x < unat d" by (simp add: x_def d_def)
  then have "unat (x - d) = unat x + 2 ^ 64 - unat d"
    by (simp add: unat_sub_if_size word_size)
  moreover from xd have "unat (0 - d) = 2 ^ 64 - unat d"
    by (simp add: unat_sub_if_size word_size del: diff_0)
  moreover have "unat d < 2 ^ LENGTH(64)" by (rule unsigned_less)
  ultimately have "unat (0 - d) \<le> unat (x - d)" by simp
  with 2 e show False by simp
qed

lemma memcpy_at: "memcpy m d s n a = (if a - d < n then m (s + (a - d)) else m a)"
  by (simp add: memcpy_def)

lemma memset_at: "memset m p c n a = (if a - p < n then c else m a)"
  by (simp add: memset_def)

lemma store_at: "store m p bs a = (if unat (a - p) < length bs then bs ! unat (a - p) else m a)"
  by (simp add: store_def)

text \<open>
  Claim C8. A buffer initialised with capacity 8 and element size 4, served by a caller
  that passes 32-bit integers through one variable (at \<open>0x2000\<close>, the array at
  \<open>0x1000\<close>), from any world \<open>w\<close>. Inserting 1 to 8 succeeds each time; inserting 9
  fails (-1, \<open>Full\<close>); a removal succeeds and yields 1; inserting 90 succeeds and lands
  in slot 0, which held 1 when the buffer was full; then \<open>head = tail = 1\<close>, \<open>count = 8\<close> and the contents from
  head to tail are 2, 3, 4, 5, 6, 7, 8, 90. Eight removals yield exactly these, in this
  order, and a ninth fails (-1, \<open>Empty\<close>).
\<close>

theorem int_scenario:
  "ringbuf_init (Some r0) 0x1000 8 4 = (0, Some sample_rb) \<and>
   (case client 0x2000 (map (\<lambda>v. Enqueue (le32 v)) [1, 2, 3, 4, 5, 6, 7, 8]) sample_rb w of
      Inl f \<Rightarrow> False
    | Inr (evs, rb0, w0) \<Rightarrow>
        head rb0 = 0 \<and> tail rb0 = 0 \<and> count rb0 = 8 \<and>
        load (heap w0) (slot rb0 0) 4 = le32 1) \<and>
   (case client 0x2000
           (map (\<lambda>v. Enqueue (le32 v)) [1, 2, 3, 4, 5, 6, 7, 8] @
            [Enqueue (le32 9), Dequeue, Enqueue (le32 90)]) sample_rb w of
      Inl f \<Rightarrow> False
    | Inr (evs, rb1, w1) \<Rightarrow>
        evs = map (\<lambda>v. EnqOk (le32 v)) [1, 2, 3, 4, 5, 6, 7, 8] @
              [EnqFull (le32 9), DeqOk (le32 1), EnqOk (le32 90)] \<and>
        head rb1 = 1 \<and> tail rb1 = 1 \<and> count rb1 = 8 \<and>
        load (heap w1) (slot rb1 0) 4 = le32 90 \<and>
        contents rb1 (heap w1) = map le32 [2, 3, 4, 5, 6, 7, 8, 90] \<and>
        (case client 0x2000
                [Dequeue, Dequeue, Dequeue, Dequeue, Dequeue, Dequeue, Dequeue, Dequeue, Dequeue]
                rb1 w1 of
           Inl f \<Rightarrow> False
         | Inr (evs', rb2, w2) \<Rightarrow>
             evs' = map (\<lambda>v. DeqOk (le32 v)) [2, 3, 4, 5, 6, 7, 8, 90] @ [DeqEmpty] \<and>
             count rb2 = 0 \<and> contents rb2 (heap w2) = []))"
  by (simp add: ringbuf_init_def sample_rb_def ringbuf_add_tail_def ringbuf_remove_head_def
      ringbuf_full_def ringbuf_empty_def Let_def contents_def slot_def load_def le32_def
      memcpy_at memset_at store_at upt_rec)



section \<open>First in, first out\<close>

text \<open>
  Slots are laid out one after the other in the array. When the array fits into the
  address space, distinct slots share no byte, so a write to one slot leaves the
  elements in the others as they were.
\<close>

lemma unat_offset_le:
  fixes s d :: size_t
  shows "unat (s * of_nat i + d) \<le> unat s * i + unat d"
proof -
  have "unat (s * of_nat i + d) = (unat (s * of_nat i) + unat d) mod 2 ^ LENGTH(64)"
    by (rule unat_word_ariths(1))
  also have "\<dots> \<le> unat (s * of_nat i) + unat d" by (rule mod_less_eq_dividend)
  also have "unat (s * of_nat i) = (unat s * unat (of_nat i :: size_t)) mod 2 ^ LENGTH(64)"
    by (rule unat_word_ariths(2))
  also have "\<dots> \<le> unat s * unat (of_nat i :: size_t)" by (rule mod_less_eq_dividend)
  also have "unat (of_nat i :: size_t) \<le> i" by (simp add: unat_of_nat)
  finally show ?thesis by simp
qed

lemma unat_offset_eq:
  fixes s d :: size_t
  assumes "unat s * i + unat d < 2 ^ 64"
  shows "unat (s * of_nat i + d) = unat s * i + unat d"
proof -
  have "s * of_nat i + d = of_nat (unat s * i + unat d)" by simp
  with assms show ?thesis by (simp only: unat_of_nat_small)
qed

lemma slot_in_storage:
  assumes i: "i < unat (capacity rb)"
    and a: "within a (slot rb (of_nat i)) (unat (elem_sz rb))"
  shows "within a (buf rb) (unat (capacity rb) * unat (elem_sz rb))"
proof -
  define d where "d = a - slot rb (of_nat i)"
  from a have d: "unat d < unat (elem_sz rb)" by (simp add: within_def d_def)
  have "a - buf rb = elem_sz rb * of_nat i + d" by (simp add: d_def slot_def)
  then have "unat (a - buf rb) \<le> unat (elem_sz rb) * i + unat d"
    by (simp add: unat_offset_le)
  also from d have "\<dots> < unat (elem_sz rb) * i + unat (elem_sz rb)" by simp
  also have "\<dots> = unat (elem_sz rb) * Suc i" by simp
  also from i have "\<dots> \<le> unat (elem_sz rb) * unat (capacity rb)"
    by (intro mult_le_mono2) simp
  finally show ?thesis by (simp add: within_def mult.commute)
qed

lemma slots_disjoint:
  assumes i: "i < unat (capacity rb)" and j: "j < unat (capacity rb)" and ne: "i \<noteq> j"
    and fit: "unat (capacity rb) * unat (elem_sz rb) \<le> 2 ^ 64"
    and a: "within a (slot rb (of_nat i)) (unat (elem_sz rb))"
  shows "\<not> within a (slot rb (of_nat j)) (unat (elem_sz rb))"
proof
  assume b: "within a (slot rb (of_nat j)) (unat (elem_sz rb))"
  let ?s = "unat (elem_sz rb)"
  define d where "d = a - slot rb (of_nat i)"
  define e where "e = a - slot rb (of_nat j)"
  from a b have d: "unat d < ?s" and e: "unat e < ?s"
    by (simp_all add: within_def d_def e_def)
  have bound: "?s * k + unat x < 2 ^ 64" if "k < unat (capacity rb)" "unat x < ?s" for k and x :: size_t
  proof -
    from that have "?s * k + unat x < ?s * Suc k" by simp
    also from that have "\<dots> \<le> ?s * unat (capacity rb)" by (intro mult_le_mono2) simp
    finally show ?thesis using fit by (simp add: mult.commute)
  qed
  have "elem_sz rb * of_nat i + d = elem_sz rb * of_nat j + e"
    by (simp add: d_def e_def slot_def)
  then have "unat (elem_sz rb * of_nat i + d) = unat (elem_sz rb * of_nat j + e)" by simp
  then have eq: "?s * i + unat d = ?s * j + unat e"
    by (simp only: unat_offset_eq [OF bound [OF i d]] unat_offset_eq [OF bound [OF j e]])
  from d have "(?s * i + unat d) div ?s = i" by simp
  moreover from e have "(?s * j + unat e) div ?s = j" by simp
  ultimately show False using eq ne by simp
qed

lemma mod_shift_inj:
  fixes h i j n :: nat
  assumes "i < n" and "j < n" and "(h + i) mod n = (h + j) mod n"
  shows "i = j"
proof -
  have aux: "a = b" if "a \<le> b" "b < n" "(h + a) mod n = (h + b) mod n" for a b
  proof -
    from that have le: "h + a \<le> h + b" and eq: "(h + b) mod n = (h + a) mod n"
      by simp_all
    from eq have "n dvd (h + b) - (h + a)"
      by (simp only: mod_eq_dvd_iff_nat [OF le])
    then have dv: "n dvd b - a" by simp
    from that have lt: "b - a < n" by simp
    have "b - a = 0"
    proof (rule ccontr)
      assume "b - a \<noteq> 0"
      then have "0 < b - a" by simp
      from nat_dvd_not_less [OF this lt] dv show False by simp
    qed
    with that show ?thesis by simp
  qed
  show ?thesis
  proof (cases "i \<le> j")
    case True
    from aux [OF True assms(2) assms(3)] show ?thesis .
  next
    case False
    then have "j \<le> i" by simp
    from aux [OF this assms(1) assms(3) [symmetric]] show ?thesis by simp
  qed
qed

lemma inv_facts:
  assumes "ringbuf_inv rb" and "capacity rb \<noteq> 0"
  shows "unat (count rb) \<le> unat (capacity rb)"
    and "unat (head rb) < unat (capacity rb)"
    and "unat (tail rb) < unat (capacity rb)"
    and "unat (tail rb) = (unat (head rb) + unat (count rb)) mod unat (capacity rb)"
  using assms by (simp_all add: ringbuf_inv_def)

lemma contents_frame:
  assumes inv: "ringbuf_inv rb"
    and same: "\<And>a. within a (buf rb) (unat (capacity rb) * unat (elem_sz rb)) \<Longrightarrow> m' a = m a"
  shows "contents rb m' = contents rb m"
  unfolding contents_def
proof (rule map_cong [OF refl])
  fix i assume "i \<in> set [0..<unat (count rb)]"
  then have i: "i < unat (count rb)" by simp
  from inv have "unat (count rb) \<le> unat (capacity rb)" by (simp add: ringbuf_inv_def)
  with i have pos: "0 < unat (capacity rb)" by simp
  let ?k = "(unat (head rb) + i) mod unat (capacity rb)"
  from pos have k: "?k < unat (capacity rb)" by simp
  show "load m' (slot rb (of_nat ?k)) (unat (elem_sz rb)) = load m (slot rb (of_nat ?k)) (unat (elem_sz rb))"
    by (rule load_cong) (rule same, rule slot_in_storage [OF k])
qed

lemma contents_add:
  assumes inv: "ringbuf_inv rb" and cap: "capacity rb \<noteq> 0" and nf: "count rb \<noteq> capacity rb"
    and fit: "unat (capacity rb) * unat (elem_sz rb) \<le> 2 ^ 64"
    and frame: "\<And>a. \<not> within a (slot rb (tail rb)) (unat (elem_sz rb)) \<Longrightarrow> m' a = m a"
  shows "contents (rb\<lparr>tail := t', count := count rb + 1\<rparr>) m' =
           contents rb m @ [load m' (slot rb (tail rb)) (unat (elem_sz rb))]"
proof -
  note f = inv_facts [OF inv cap]
  let ?n = "unat (capacity rb)" and ?h = "unat (head rb)" and ?c = "unat (count rb)"
  from nf have "?c \<noteq> ?n" by (simp add: word_unat_eq_iff)
  with f(1) have lt: "?c < ?n" by simp
  have c': "unat (count rb + 1) = Suc ?c"
    using unat_plus_one [OF lt] by simp
  have sl: "slot (rb\<lparr>tail := t', count := count rb + 1\<rparr>) = slot rb"
    by (simp add: slot_def fun_eq_iff)
  have last: "of_nat ((?h + ?c) mod ?n) = tail rb"
    using f(4) by (metis of_nat_unat ucast_id)
  have old: "load m' (slot rb (of_nat ((?h + i) mod ?n))) (unat (elem_sz rb)) =
             load m (slot rb (of_nat ((?h + i) mod ?n))) (unat (elem_sz rb))" if "i < ?c" for i
  proof (rule load_cong)
    fix a assume a: "within a (slot rb (of_nat ((?h + i) mod ?n))) (unat (elem_sz rb))"
    from lt have pos: "0 < ?n" by simp
    have ne: "(?h + i) mod ?n \<noteq> (?h + ?c) mod ?n"
    proof
      assume "(?h + i) mod ?n = (?h + ?c) mod ?n"
      from mod_shift_inj [OF _ lt this] that lt show False by simp
    qed
    have "\<not> within a (slot rb (of_nat ((?h + ?c) mod ?n))) (unat (elem_sz rb))"
      by (rule slots_disjoint [OF _ _ ne fit a]) (simp_all add: pos)
    then show "m' a = m a" unfolding last by (rule frame)
  qed
  show ?thesis
    by (simp add: contents_def c' sl last old)
qed

lemma contents_remove:
  assumes inv: "ringbuf_inv rb" and cap: "capacity rb \<noteq> 0" and ne: "count rb \<noteq> 0"
    and fit: "unat (capacity rb) * unat (elem_sz rb) \<le> 2 ^ 64"
    and frame: "\<And>a. within a (buf rb) (unat (capacity rb) * unat (elem_sz rb)) \<Longrightarrow>
                    \<not> within a (slot rb (head rb)) (unat (elem_sz rb)) \<Longrightarrow> m' a = m a"
  shows "contents rb m =
           load m (slot rb (head rb)) (unat (elem_sz rb)) #
           contents (rb\<lparr>head := (head rb + 1) mod capacity rb, count := count rb - 1\<rparr>) m'"
proof -
  note f = inv_facts [OF inv cap]
  let ?n = "unat (capacity rb)" and ?h = "unat (head rb)" and ?c = "unat (count rb)"
  let ?rb' = "rb\<lparr>head := (head rb + 1) mod capacity rb, count := count rb - 1\<rparr>"
  from ne have pos: "0 < ?c" by (simp add: unat_gt_0)
  have c': "unat (count rb - 1) = ?c - 1"
    by (rule unat_minus_one_word [OF ne])
  have h': "unat ((head rb + 1) mod capacity rb) = (?h + 1) mod ?n"
    by (rule unat_succ_mod [OF f(2)])
  have sl: "slot ?rb' = slot rb"
    by (simp add: slot_def fun_eq_iff)
  have first: "of_nat (?h mod ?n) = head rb"
    using f(2) by simp
  have split: "[0..<?c] = 0 # map Suc [0..<?c - 1]"
    using pos by (metis One_nat_def Suc_pred map_Suc_upt upt_conv_Cons)
  have idx: "(Suc ?h mod ?n + i) mod ?n = Suc (?h + i) mod ?n" for i
    using mod_add_left_eq [of "Suc ?h" ?n i] by simp
  have rest: "load m (slot rb (of_nat ((?h + Suc i) mod ?n))) (unat (elem_sz rb)) =
              load m' (slot rb (of_nat ((?h + Suc i) mod ?n))) (unat (elem_sz rb))" if "i < ?c - 1" for i
  proof (rule load_cong [symmetric])
    fix a assume a: "within a (slot rb (of_nat ((?h + Suc i) mod ?n))) (unat (elem_sz rb))"
    from f(2) have n: "0 < ?n" by simp
    then have k: "(?h + Suc i) mod ?n < ?n" by simp
    from that f(1) have si: "Suc i < ?n" by simp
    have d: "(?h + Suc i) mod ?n \<noteq> ?h mod ?n"
    proof
      assume "(?h + Suc i) mod ?n = ?h mod ?n"
      then have "(?h + Suc i) mod ?n = (?h + 0) mod ?n" by simp
      from mod_shift_inj [OF si n this] show False by simp
    qed
    have "\<not> within a (slot rb (of_nat (?h mod ?n))) (unat (elem_sz rb))"
      by (rule slots_disjoint [OF k _ d fit a]) (simp add: n)
    then have "\<not> within a (slot rb (head rb)) (unat (elem_sz rb))"
      unfolding first .
    with slot_in_storage [OF k a] show "m' a = m a" by (rule frame)
  qed
  have "contents rb m =
      load m (slot rb (of_nat (?h mod ?n))) (unat (elem_sz rb)) #
      map (\<lambda>i. load m (slot rb (of_nat ((?h + Suc i) mod ?n))) (unat (elem_sz rb))) [0..<?c - 1]"
    unfolding contents_def split by (simp add: comp_def)
  also have "map (\<lambda>i. load m (slot rb (of_nat ((?h + Suc i) mod ?n))) (unat (elem_sz rb))) [0..<?c - 1] =
      map (\<lambda>i. load m' (slot rb (of_nat ((?h + Suc i) mod ?n))) (unat (elem_sz rb))) [0..<?c - 1]"
    using rest by (intro map_cong [OF refl]) simp
  also have "\<dots> = contents ?rb' m'"
    by (simp add: contents_def c' h' sl idx)
  finally show ?thesis unfolding first .
qed

lemma caller_ok_fit:
  assumes "caller_ok e rb"
  shows "unat (capacity rb) * unat (elem_sz rb) \<le> 2 ^ 64"
proof (cases "unat (elem_sz rb) = 0")
  case True
  then show ?thesis by simp
next
  case False
  then have "within e e (unat (elem_sz rb))" by (simp add: within_def)
  with assms have "\<not> within e (buf rb) (unat (capacity rb) * unat (elem_sz rb))"
    by (auto simp: caller_ok_def separate_def)
  then have "unat (capacity rb) * unat (elem_sz rb) \<le> unat (e - buf rb)"
    by (simp add: within_def)
  also have "\<dots> < 2 ^ LENGTH(64)" by (rule unsigned_less)
  finally show ?thesis by simp
qed

lemma caller_ok_outside:
  assumes "caller_ok e rb" and "within a e (unat (elem_sz rb))"
  shows "\<not> within a (buf rb) (unat (capacity rb) * unat (elem_sz rb))"
  using assms by (auto simp: caller_ok_def separate_def)

lemma caller_ok_copy:
  assumes "caller_ok e rb"
  shows "copy_elem rb m d s = memcpy m d s (elem_sz rb)"
  using assms by (simp add: caller_ok_def copy_faithful_def copy_elem_def split: option.splits)

lemma store_outside:
  assumes "\<not> within a p (length bs)"
  shows "store m p bs a = m a"
  using assms by (simp add: store_def within_def)

lemma load_store:
  fixes n :: size_t
  assumes "length bs = unat n"
  shows "load (store m p bs) p (unat n) = bs"
proof -
  have "load (store m p bs) p (unat n) = map (\<lambda>k. bs ! k) [0..<unat n]"
    unfolding load_def
  proof (rule map_cong [OF refl])
    fix k assume "k \<in> set [0..<unat n]"
    then have k: "k < unat n" by simp
    have "unat n < 2 ^ LENGTH(64)" by (rule unsigned_less)
    with k have "k < 2 ^ 64" by simp
    then have "unat (of_nat k :: ptr) = k" by (rule unat_of_nat_small)
    with k assms show "store m p bs (p + of_nat k) = bs ! k"
      by (simp add: store_def)
  qed
  also have "\<dots> = bs" by (simp add: assms [symmetric] map_nth)
  finally show ?thesis .
qed

lemma head_slot_in_storage:
  assumes "ringbuf_inv rb" and "capacity rb \<noteq> 0"
    and "within a (slot rb (head rb)) (unat (elem_sz rb))"
  shows "within a (buf rb) (unat (capacity rb) * unat (elem_sz rb))"
  using slot_in_storage [OF inv_facts(2) [OF assms(1,2)], of a] assms(3) by simp

lemma enqueue_step:
  assumes inv: "ringbuf_inv rb" and ok: "caller_ok e rb" and len: "length x = unat (elem_sz rb)"
  shows "\<exists>r rb' w'. ringbuf_add_tail rb e (w\<lparr>heap := store (heap w) e x\<rparr>) = Inr (r, rb', w') \<and>
           ringbuf_inv rb' \<and> caller_ok e rb' \<and> elem_sz rb' = elem_sz rb \<and>
           (if r = 0 then contents rb' (heap w') = contents rb (heap w) @ [x]
            else contents rb' (heap w') = contents rb (heap w))"
proof -
  let ?w1 = "w\<lparr>heap := store (heap w) e x\<rparr>"
  let ?m1 = "store (heap w) e x"
  from ok have e: "e \<noteq> 0" by (simp add: caller_ok_def)
  have c1: "contents rb ?m1 = contents rb (heap w)"
  proof (rule contents_frame [OF inv])
    fix a assume "within a (buf rb) (unat (capacity rb) * unat (elem_sz rb))"
    with caller_ok_outside [OF ok, of a] have "\<not> within a e (length x)"
      unfolding len by blast
    then show "?m1 a = heap w a" by (rule store_outside)
  qed
  show ?thesis
  proof (cases "count rb = capacity rb")
    case True
    from add_tail_full [OF e True, of ?w1] inv ok c1 show ?thesis by simp
  next
    case False
    with inv have cap: "capacity rb \<noteq> 0" by (auto dest: inv_no_slots)
    let ?rb' = "rb\<lparr>tail := (tail rb + 1) mod capacity rb, count := count rb + 1\<rparr>"
    let ?m' = "memcpy ?m1 (slot rb (tail rb)) e (elem_sz rb)"
    from add_tail_success [OF e False cap, of ?w1] obtain out where
      ret: "ringbuf_add_tail rb e ?w1 = Inr (0, ?rb', \<lparr>heap = ?m', console = out\<rparr>)"
      by (auto simp: caller_ok_copy [OF ok])
    have "contents ?rb' ?m' = contents rb ?m1 @ [load ?m' (slot rb (tail rb)) (unat (elem_sz rb))]"
      by (rule contents_add [OF inv cap False caller_ok_fit [OF ok]]) (simp add: memcpy_apply)
    moreover have "load ?m' (slot rb (tail rb)) (unat (elem_sz rb)) = load ?m1 e (unat (elem_sz rb))"
      by (rule load_shifted) (simp add: memcpy_apply)
    moreover have "load ?m1 e (unat (elem_sz rb)) = x"
      by (rule load_store [OF len])
    ultimately have c: "contents ?rb' ?m' = contents rb (heap w) @ [x]"
      by (simp add: c1)
    have i: "ringbuf_inv ?rb'" by (rule inv_after_add [OF inv cap False])
    have o: "caller_ok e ?rb'" using ok by (simp add: caller_ok_def copy_faithful_def cong: option.case_cong)
    from ret c i o show ?thesis by simp
  qed
qed

lemma dequeue_step:
  assumes inv: "ringbuf_inv rb" and ok: "caller_ok e rb"
  shows "\<exists>r rb' w'. ringbuf_remove_head rb e w = Inr (r, rb', w') \<and>
           ringbuf_inv rb' \<and> caller_ok e rb' \<and> elem_sz rb' = elem_sz rb \<and>
           (if r = 0 then contents rb (heap w) =
                            load (heap w') e (unat (elem_sz rb)) # contents rb' (heap w')
            else contents rb' (heap w') = contents rb (heap w))"
proof (cases "count rb = 0")
  case True
  from remove_head_empty [OF True, of e w] inv ok show ?thesis by simp
next
  case False
  with inv have cap: "capacity rb \<noteq> 0" by (auto dest: inv_no_slots)
  from ok have e: "e \<noteq> 0" by (simp add: caller_ok_def)
  let ?hp = "slot rb (head rb)"
  let ?rb' = "rb\<lparr>head := (head rb + 1) mod capacity rb, count := count rb - 1\<rparr>"
  let ?m' = "memset (memcpy (heap w) e ?hp (elem_sz rb)) ?hp 0 (elem_sz rb)"
  from remove_head_success [OF False cap, of e w] e obtain out where
    ret: "ringbuf_remove_head rb e w = Inr (0, ?rb', \<lparr>heap = ?m', console = out\<rparr>)"
    by (auto simp: caller_ok_copy [OF ok])
  have apart: "\<not> within a ?hp (unat (elem_sz rb))" if "within a e (unat (elem_sz rb))" for a
    using caller_ok_outside [OF ok that] head_slot_in_storage [OF inv cap, of a] by blast
  have c: "contents rb (heap w) = load (heap w) ?hp (unat (elem_sz rb)) # contents ?rb' ?m'"
  proof (rule contents_remove [OF inv cap False caller_ok_fit [OF ok]])
    fix a
    assume "within a (buf rb) (unat (capacity rb) * unat (elem_sz rb))"
      and "\<not> within a ?hp (unat (elem_sz rb))"
    with caller_ok_outside [OF ok, of a] show "?m' a = heap w a"
      by (auto simp: memset_apply memcpy_apply)
  qed
  have l: "load ?m' e (unat (elem_sz rb)) = load (heap w) ?hp (unat (elem_sz rb))"
    by (rule load_shifted) (simp add: memset_apply memcpy_apply apart)
  have i: "ringbuf_inv ?rb'" by (rule inv_after_remove [OF inv cap False])
  have o: "caller_ok e ?rb'" using ok by (simp add: caller_ok_def copy_faithful_def cong: option.case_cong)
  from ret c l i o show ?thesis by simp
qed

lemma client_fifo:
  assumes "ringbuf_inv rb" and "caller_ok e rb"
    and "\<forall>q \<in> set reqs. payload_ok (unat (elem_sz rb)) q"
  shows "\<exists>evs rb' w'. client e reqs rb w = Inr (evs, rb', w') \<and>
           ringbuf_inv rb' \<and> length evs = length reqs \<and>
           contents rb (heap w) @ accepted evs = delivered evs @ contents rb' (heap w')"
  using assms
proof (induction reqs arbitrary: rb w)
  case Nil
  then show ?case by simp
next
  case (Cons q reqs)
  show ?case
  proof (cases q)
    case (Enqueue x)
    with Cons.prems have len: "length x = unat (elem_sz rb)" by simp
    from enqueue_step [OF Cons.prems(1,2) len, of w] obtain r rb1 w1 where
      ret: "ringbuf_add_tail rb e (w\<lparr>heap := store (heap w) e x\<rparr>) = Inr (r, rb1, w1)"
      and inv1: "ringbuf_inv rb1" and ok1: "caller_ok e rb1" and sz1: "elem_sz rb1 = elem_sz rb"
      and c: "if r = 0 then contents rb1 (heap w1) = contents rb (heap w) @ [x]
              else contents rb1 (heap w1) = contents rb (heap w)"
      by blast
    from Cons.prems(3) sz1 have "\<forall>q \<in> set reqs. payload_ok (unat (elem_sz rb1)) q" by simp
    from Cons.IH [OF inv1 ok1 this, of w1] obtain evs rb' w' where
      run: "client e reqs rb1 w1 = Inr (evs, rb', w')" and inv': "ringbuf_inv rb'"
      and n: "length evs = length reqs"
      and f: "contents rb1 (heap w1) @ accepted evs = delivered evs @ contents rb' (heap w')"
      by blast
    show ?thesis
    proof (cases "r = 0")
      case True
      with c f have "contents rb (heap w) @ accepted (EnqOk x # evs) =
                     delivered (EnqOk x # evs) @ contents rb' (heap w')" by simp
      with Enqueue ret run inv' n True show ?thesis by simp
    next
      case False
      with c f have "contents rb (heap w) @ accepted (EnqFull x # evs) =
                     delivered (EnqFull x # evs) @ contents rb' (heap w')" by simp
      with Enqueue ret run inv' n False show ?thesis by simp
    qed
  next
    case Dequeue
    from dequeue_step [OF Cons.prems(1,2), of w] obtain r rb1 w1 where
      ret: "ringbuf_remove_head rb e w = Inr (r, rb1, w1)"
      and inv1: "ringbuf_inv rb1" and ok1: "caller_ok e rb1" and sz1: "elem_sz rb1 = elem_sz rb"
      and c: "if r = 0 then contents rb (heap w) =
                              load (heap w1) e (unat (elem_sz rb)) # contents rb1 (heap w1)
              else contents rb1 (heap w1) = contents rb (heap w)"
      by blast
    from Cons.prems(3) sz1 have "\<forall>q \<in> set reqs. payload_ok (unat (elem_sz rb1)) q" by simp
    from Cons.IH [OF inv1 ok1 this, of w1] obtain evs rb' w' where
      run: "client e reqs rb1 w1 = Inr (evs, rb', w')" and inv': "ringbuf_inv rb'"
      and n: "length evs = length reqs"
      and f: "contents rb1 (heap w1) @ accepted evs = delivered evs @ contents rb' (heap w')"
      by blast
    show ?thesis
    proof (cases "r = 0")
      case True
      let ?y = "load (heap w1) e (unat (elem_sz rb))"
      from True c f have "contents rb (heap w) @ accepted (DeqOk ?y # evs) =
                          delivered (DeqOk ?y # evs) @ contents rb' (heap w')" by simp
      with Dequeue ret run inv' n True show ?thesis by simp
    next
      case False
      with c f have "contents rb (heap w) @ accepted (DeqEmpty # evs) =
                     delivered (DeqEmpty # evs) @ contents rb' (heap w')" by simp
      with Dequeue ret run inv' n False show ?thesis by simp
    qed
  qed
qed

lemma length_contents: "length (contents rb m) = unat (count rb)"
  by (simp add: contents_def)

lemma enqueue_step_full:
  assumes inv: "ringbuf_inv rb" and ok: "caller_ok e rb" and len: "length x = unat (elem_sz rb)"
  shows "\<exists>r rb' w'. ringbuf_add_tail rb e (w\<lparr>heap := store (heap w) e x\<rparr>) = Inr (r, rb', w') \<and>
           ringbuf_inv rb' \<and> caller_ok e rb' \<and> elem_sz rb' = elem_sz rb \<and>
           capacity rb' = capacity rb \<and>
           (r = 0 \<longleftrightarrow> count rb \<noteq> capacity rb) \<and>
           (if r = 0 then contents rb' (heap w') = contents rb (heap w) @ [x]
            else contents rb' (heap w') = contents rb (heap w))"
proof -
  from enqueue_step [OF assms, of w] obtain r rb' w' where
    ret: "ringbuf_add_tail rb e (w\<lparr>heap := store (heap w) e x\<rparr>) = Inr (r, rb', w')"
    and rest: "ringbuf_inv rb'" "caller_ok e rb'" "elem_sz rb' = elem_sz rb"
      "if r = 0 then contents rb' (heap w') = contents rb (heap w) @ [x]
       else contents rb' (heap w') = contents rb (heap w)"
    by blast
  from ok have "e \<noteq> 0" by (simp add: caller_ok_def)
  with add_tail_Inr_cases [OF ret]
  have "capacity rb' = capacity rb \<and> (r = 0 \<longleftrightarrow> count rb \<noteq> capacity rb)"
    by auto
  with ret rest show ?thesis by blast
qed

lemma dequeue_step_full:
  assumes inv: "ringbuf_inv rb" and ok: "caller_ok e rb"
  shows "\<exists>r rb' w'. ringbuf_remove_head rb e w = Inr (r, rb', w') \<and>
           ringbuf_inv rb' \<and> caller_ok e rb' \<and> elem_sz rb' = elem_sz rb \<and>
           capacity rb' = capacity rb \<and>
           (r = 0 \<longleftrightarrow> count rb \<noteq> 0) \<and>
           (if r = 0 then contents rb (heap w) =
                            load (heap w') e (unat (elem_sz rb)) # contents rb' (heap w')
            else contents rb' (heap w') = contents rb (heap w))"
proof -
  from dequeue_step [OF assms, of w] obtain r rb' w' where
    ret: "ringbuf_remove_head rb e w = Inr (r, rb', w')"
    and rest: "ringbuf_inv rb'" "caller_ok e rb'" "elem_sz rb' = elem_sz rb"
      "if r = 0 then contents rb (heap w) =
                            load (heap w') e (unat (elem_sz rb)) # contents rb' (heap w')
       else contents rb' (heap w') = contents rb (heap w)"
    by blast
  from remove_head_Inr_cases [OF ret]
  have "capacity rb' = capacity rb \<and> (r = 0 \<longleftrightarrow> count rb \<noteq> 0)"
    by auto
  with ret rest show ?thesis by blast
qed

lemma client_refines_queue:
  assumes "ringbuf_inv rb" and "caller_ok e rb"
    and "\<forall>q \<in> set reqs. payload_ok (unat (elem_sz rb)) q"
  shows "\<exists>rb' w'. client e reqs rb w =
             Inr (fst (queue_model (unat (capacity rb)) (contents rb (heap w)) reqs), rb', w') \<and>
           contents rb' (heap w') =
             snd (queue_model (unat (capacity rb)) (contents rb (heap w)) reqs)"
  using assms
proof (induction reqs arbitrary: rb w)
  case Nil
  then show ?case by simp
next
  case (Cons q reqs)
  let ?N = "unat (capacity rb)"
  show ?case
  proof (cases q)
    case (Enqueue x)
    with Cons.prems have len: "length x = unat (elem_sz rb)" by simp
    from enqueue_step_full [OF Cons.prems(1,2) len, of w] obtain r rb1 w1 where
      ret: "ringbuf_add_tail rb e (w\<lparr>heap := store (heap w) e x\<rparr>) = Inr (r, rb1, w1)"
      and inv1: "ringbuf_inv rb1" and ok1: "caller_ok e rb1" and sz1: "elem_sz rb1 = elem_sz rb"
      and cap1: "capacity rb1 = capacity rb"
      and r: "r = 0 \<longleftrightarrow> count rb \<noteq> capacity rb"
      and c: "if r = 0 then contents rb1 (heap w1) = contents rb (heap w) @ [x]
              else contents rb1 (heap w1) = contents rb (heap w)"
      by blast
    from Cons.prems(3) sz1 have "\<forall>q \<in> set reqs. payload_ok (unat (elem_sz rb1)) q" by simp
    from Cons.IH [OF inv1 ok1 this, of w1] cap1 obtain rb' w' where
      run: "client e reqs rb1 w1 = Inr (fst (queue_model ?N (contents rb1 (heap w1)) reqs), rb', w')"
      and fin: "contents rb' (heap w') = snd (queue_model ?N (contents rb1 (heap w1)) reqs)"
      by auto
    have full: "length (contents rb (heap w)) = ?N \<longleftrightarrow> r \<noteq> 0"
      using r by (simp add: length_contents word_unat_eq_iff)
    show ?thesis
    proof (cases "r = 0")
      case True
      with Enqueue ret run fin c full show ?thesis
        by (simp add: split_beta)
    next
      case False
      with Enqueue ret run fin c full show ?thesis
        by (simp add: split_beta)
    qed
  next
    case Dequeue
    from dequeue_step_full [OF Cons.prems(1,2), of w] obtain r rb1 w1 where
      ret: "ringbuf_remove_head rb e w = Inr (r, rb1, w1)"
      and inv1: "ringbuf_inv rb1" and ok1: "caller_ok e rb1" and sz1: "elem_sz rb1 = elem_sz rb"
      and cap1: "capacity rb1 = capacity rb"
      and r: "r = 0 \<longleftrightarrow> count rb \<noteq> 0"
      and c: "if r = 0 then contents rb (heap w) =
                              load (heap w1) e (unat (elem_sz rb)) # contents rb1 (heap w1)
              else contents rb1 (heap w1) = contents rb (heap w)"
      by blast
    from Cons.prems(3) sz1 have "\<forall>q \<in> set reqs. payload_ok (unat (elem_sz rb1)) q" by simp
    from Cons.IH [OF inv1 ok1 this, of w1] cap1 obtain rb' w' where
      run: "client e reqs rb1 w1 = Inr (fst (queue_model ?N (contents rb1 (heap w1)) reqs), rb', w')"
      and fin: "contents rb' (heap w') = snd (queue_model ?N (contents rb1 (heap w1)) reqs)"
      by auto
    show ?thesis
    proof (cases "r = 0")
      case True
      with c have "contents rb (heap w) =
          load (heap w1) e (unat (elem_sz rb)) # contents rb1 (heap w1)" by simp
      with Dequeue ret run fin True show ?thesis
        by (simp add: split_beta)
    next
      case False
      with r have "count rb = 0" by simp
      then have "contents rb (heap w) = []" by (simp add: contents_def)
      with Dequeue ret run fin False c show ?thesis
        by (simp add: split_beta)
    qed
  qed
qed

lemma queue_model_abc:
  assumes "3 \<le> n"
  shows "queue_model n [] [Enqueue A, Enqueue B, Enqueue C, Dequeue, Dequeue, Dequeue] =
           ([EnqOk A, EnqOk B, EnqOk C, DeqOk A, DeqOk B, DeqOk C], [])"
  using assms by simp

text \<open>
  Claim C2. Let the buffer be in a state that satisfies the invariant (every reachable
  state does), and let a caller as above serve any list of requests, each element
  being \<open>elem_sz\<close> bytes long. Then every call returns, and the elements held at the
  start followed by the elements of the successful \<^verbatim>\<open>ringbuf_add_tail\<close> calls, in call
  order, are the elements read back after the successful \<^verbatim>\<open>ringbuf_remove_head\<close>
  calls, in call order, followed by the elements held at the end. From an empty
  buffer, what was removed is thus an initial segment of what was added, in the same
  order. In particular, in an empty buffer with room for three, wherever \<open>head\<close> and
  \<open>tail\<close> stand and wrap: adding \<open>A\<close>, \<open>B\<close>, \<open>C\<close> and removing three times succeeds six
  times and yields \<open>A\<close>, \<open>B\<close>, \<open>C\<close>.
\<close>

theorem fifo_order:
  assumes "ringbuf_inv rb" and "caller_ok e rb"
    and "\<forall>q \<in> set reqs. payload_ok (unat (elem_sz rb)) q"
  shows "(\<exists>evs rb' w'. client e reqs rb w = Inr (evs, rb', w') \<and>
            length evs = length reqs \<and>
            contents rb (heap w) @ accepted evs = delivered evs @ contents rb' (heap w') \<and>
            (count rb = 0 \<longrightarrow> delivered evs = take (length (delivered evs)) (accepted evs))) \<and>
         (count rb = 0 \<and> 3 \<le> unat (capacity rb) \<and> length A = unat (elem_sz rb) \<and>
          length B = unat (elem_sz rb) \<and> length C = unat (elem_sz rb) \<longrightarrow>
            (\<exists>rb' w'. client e [Enqueue A, Enqueue B, Enqueue C, Dequeue, Dequeue, Dequeue] rb w =
                        Inr ([EnqOk A, EnqOk B, EnqOk C, DeqOk A, DeqOk B, DeqOk C], rb', w') \<and>
                      count rb' = 0))"
proof (rule conjI)
  from client_fifo [OF assms, of w] obtain evs rb' w' where
    run: "client e reqs rb w = Inr (evs, rb', w')" and n: "length evs = length reqs"
    and f: "contents rb (heap w) @ accepted evs = delivered evs @ contents rb' (heap w')"
    by blast
  have "delivered evs = take (length (delivered evs)) (accepted evs)" if "count rb = 0"
  proof -
    from that have "contents rb (heap w) = []" by (simp add: contents_def)
    with f have "accepted evs = delivered evs @ contents rb' (heap w')" by simp
    then show ?thesis by simp
  qed
  with run n f
  show "\<exists>evs rb' w'. client e reqs rb w = Inr (evs, rb', w') \<and>
            length evs = length reqs \<and>
            contents rb (heap w) @ accepted evs = delivered evs @ contents rb' (heap w') \<and>
            (count rb = 0 \<longrightarrow> delivered evs = take (length (delivered evs)) (accepted evs))"
    by blast
next
  let ?abc = "[Enqueue A, Enqueue B, Enqueue C, Dequeue, Dequeue, Dequeue]"
  show "count rb = 0 \<and> 3 \<le> unat (capacity rb) \<and> length A = unat (elem_sz rb) \<and>
          length B = unat (elem_sz rb) \<and> length C = unat (elem_sz rb) \<longrightarrow>
            (\<exists>rb' w'. client e ?abc rb w =
                        Inr ([EnqOk A, EnqOk B, EnqOk C, DeqOk A, DeqOk B, DeqOk C], rb', w') \<and>
                      count rb' = 0)"
  proof
    assume h: "count rb = 0 \<and> 3 \<le> unat (capacity rb) \<and> length A = unat (elem_sz rb) \<and>
          length B = unat (elem_sz rb) \<and> length C = unat (elem_sz rb)"
    then have pl: "\<forall>q \<in> set ?abc. payload_ok (unat (elem_sz rb)) q" by simp
    from h have empty: "contents rb (heap w) = []" by (simp add: contents_def)
    from h have q: "queue_model (unat (capacity rb)) [] ?abc =
        ([EnqOk A, EnqOk B, EnqOk C, DeqOk A, DeqOk B, DeqOk C], [])"
      by (intro queue_model_abc) simp
    from client_refines_queue [OF assms(1,2) pl, of w] obtain rb' w' where
      run: "client e ?abc rb w =
              Inr (fst (queue_model (unat (capacity rb)) (contents rb (heap w)) ?abc), rb', w')"
      and fin: "contents rb' (heap w') =
              snd (queue_model (unat (capacity rb)) (contents rb (heap w)) ?abc)"
      by blast
    from fin have "length (contents rb' (heap w')) = 0"
      unfolding empty q by simp
    then have "count rb' = 0"
      by (simp add: length_contents unat_eq_0)
    with run show "\<exists>rb' w'. client e ?abc rb w =
                        Inr ([EnqOk A, EnqOk B, EnqOk C, DeqOk A, DeqOk B, DeqOk C], rb', w') \<and>
                      count rb' = 0"
      unfolding empty q by auto
  qed
qed

theorem fifo_order_witness:
  "ringbuf_inv (sample_rb\<lparr>head := 7, tail := 7\<rparr>) \<and>
   caller_ok 0x2000 (sample_rb\<lparr>head := 7, tail := 7\<rparr>) \<and>
   list_all (payload_ok (unat (elem_sz (sample_rb\<lparr>head := 7, tail := 7\<rparr>))))
     [Enqueue (le32 65), Enqueue (le32 66), Enqueue (le32 67), Dequeue, Dequeue, Dequeue] \<and>
   count (sample_rb\<lparr>head := 7, tail := 7\<rparr>) = 0 \<and>
   (\<exists>w'. client 0x2000 [Enqueue (le32 65), Enqueue (le32 66), Enqueue (le32 67), Dequeue, Dequeue, Dequeue]
            (sample_rb\<lparr>head := 7, tail := 7\<rparr>) blank =
          Inr ([EnqOk (le32 65), EnqOk (le32 66), EnqOk (le32 67),
                DeqOk (le32 65), DeqOk (le32 66), DeqOk (le32 67)],
               sample_rb\<lparr>head := 2, tail := 2\<rparr>, w') \<and>
          contents (sample_rb\<lparr>head := 2, tail := 2\<rparr>) (heap w') = [])"
proof -
  let ?rb = "sample_rb\<lparr>head := 7, tail := 7\<rparr>"
  let ?reqs = "[Enqueue (le32 65), Enqueue (le32 66), Enqueue (le32 67), Dequeue, Dequeue, Dequeue]"
  have inv: "ringbuf_inv ?rb"
    by (simp add: ringbuf_inv_def sample_rb_def)
  have sep: "separate 0x2000 4 0x1000 32"
    by (rule separateI) simp_all
  then have ok: "caller_ok 0x2000 ?rb"
    by (simp add: caller_ok_def copy_faithful_def sample_rb_def)
  have pl: "\<forall>q \<in> set ?reqs. payload_ok (unat (elem_sz ?rb)) q"
    by (simp add: sample_rb_def le32_def)
  have cnt: "count ?rb = 0" by (simp add: sample_rb_def)
  from fifo_order [OF inv ok pl, of blank, THEN conjunct1] obtain evs rb' w' where
    run: "client 0x2000 ?reqs ?rb blank = Inr (evs, rb', w')"
    and f: "contents ?rb (heap blank) @ accepted evs = delivered evs @ contents rb' (heap w')"
    by blast
  have ev: "(case client 0x2000 ?reqs ?rb blank of Inl f \<Rightarrow> False
            | Inr (evs, rb', w') \<Rightarrow>
                evs = [EnqOk (le32 65), EnqOk (le32 66), EnqOk (le32 67),
                       DeqOk (le32 65), DeqOk (le32 66), DeqOk (le32 67)] \<and>
                rb' = sample_rb\<lparr>head := 2, tail := 2\<rparr>)"
    by (simp add: sample_rb_def blank_def ringbuf_add_tail_def ringbuf_remove_head_def
        ringbuf_full_def ringbuf_empty_def Let_def load_def le32_def
        memcpy_at memset_at store_at upt_rec)
  with run have evs: "evs = [EnqOk (le32 65), EnqOk (le32 66), EnqOk (le32 67),
                       DeqOk (le32 65), DeqOk (le32 66), DeqOk (le32 67)]"
    and rb': "rb' = sample_rb\<lparr>head := 2, tail := 2\<rparr>"
    by simp_all
  from f cnt have "contents rb' (heap w') = []"
    unfolding evs by (simp add: contents_def)
  with run inv ok pl cnt show ?thesis
    unfolding evs rb' by (simp add: list_all_iff)
qed

end
